theory Spec2Isabelle
  imports Complex_Main
begin

section \<open>Rational approximations of pi from continued fractions of its powers\<close>

text \<open>
  A shallow embedding of \<^verbatim>\<open>pi_convergents.py\<close>: the coefficient generator
  \<^verbatim>\<open>get_continued_fraction\<close>, the convergent builder \<^verbatim>\<open>get_convergents\<close> and the
  search controller \<^verbatim>\<open>find_pi_approximation_to_d_digits\<close>.

  Python integers are unbounded and are modelled by \<open>int\<close>. Python floats are kept
  abstract: the functions below take a table \<open>ops\<close> of the floating-point primitives the
  source calls, over an arbitrary carrier \<open>'f\<close>, so that every theorem stated for all
  \<open>ops\<close> holds whatever the floating-point arithmetic does. A primitive that can raise
  returns \<open>pyerror + _\<close>, with \<open>Inl\<close> the exception.
\<close>

subsection \<open>Python exceptions and floating-point primitives\<close>

datatype pyerror = OverflowError | ValueError | ZeroDivisionError | IndexError

text \<open>
  One field for each floating-point expression of the source:
  \<^item> \<open>fl_floor r\<close> is \<^verbatim>\<open>int(math.floor(r))\<close> (raises on an infinity or a NaN);
  \<^item> \<open>fl_sub_int r a\<close> is \<^verbatim>\<open>r - a\<close>;
  \<^item> \<open>fl_isclose0 f\<close> is \<^verbatim>\<open>math.isclose(f, 0)\<close>;
  \<^item> \<open>fl_recip f\<close> is \<^verbatim>\<open>1.0 / f\<close>;
  \<^item> \<open>fl_tolerance D\<close> is \<^verbatim>\<open>10**(-D)\<close>;
  \<^item> \<open>fl_pi_pow k\<close> is \<^verbatim>\<open>math.pi ** k\<close>;
  \<^item> \<open>fl_true_div p q\<close> is \<^verbatim>\<open>p / q\<close> on two integers;
  \<^item> \<open>fl_kth_root x k\<close> is \<^verbatim>\<open>x ** (1 / k)\<close>;
  \<^item> \<open>fl_abs_diff_pi a\<close> is \<^verbatim>\<open>abs(a - math.pi)\<close>;
  \<^item> \<open>fl_less a b\<close> is \<^verbatim>\<open>a < b\<close>.
\<close>

record 'f float_ops =
  fl_floor :: "'f \<Rightarrow> pyerror + int"
  fl_sub_int :: "'f \<Rightarrow> int \<Rightarrow> 'f"
  fl_isclose0 :: "'f \<Rightarrow> bool"
  fl_recip :: "'f \<Rightarrow> pyerror + 'f"
  fl_tolerance :: "int \<Rightarrow> pyerror + 'f"
  fl_pi_pow :: "int \<Rightarrow> pyerror + 'f"
  fl_true_div :: "int \<Rightarrow> int \<Rightarrow> pyerror + 'f"
  fl_kth_root :: "'f \<Rightarrow> int \<Rightarrow> pyerror + 'f"
  fl_abs_diff_pi :: "'f \<Rightarrow> 'f"
  fl_less :: "'f \<Rightarrow> 'f \<Rightarrow> bool"

subsection \<open>The coefficient generator\<close>

text \<open>
  \<^verbatim>\<open>for _ in range(max_terms)\<close> runs \<open>nat max_terms\<close> times. The loop has two exits:
  the range is exhausted, or \<^verbatim>\<open>break\<close> is taken because the fractional part is close
  to zero. \<open>cf_loop\<close> returns the list built so far together with the exit taken; the
  source's \<^verbatim>\<open>return coefficients\<close> keeps the list only.
\<close>

datatype loop_exit = Exhausted | Broke

fun cf_loop ::
  "'f float_ops \<Rightarrow> nat \<Rightarrow> 'f \<Rightarrow> int list \<Rightarrow> pyerror + (int list \<times> loop_exit)" where
  "cf_loop ops 0 remainder coefficients = Inr (coefficients, Exhausted)"
| "cf_loop ops (Suc n) remainder coefficients =
     (case fl_floor ops remainder of
        Inl e \<Rightarrow> Inl e
      | Inr a \<Rightarrow>
          (let coefficients' = coefficients @ [a];
               fractional_part = fl_sub_int ops remainder a
           in if fl_isclose0 ops fractional_part then Inr (coefficients', Broke)
              else (case fl_recip ops fractional_part of
                      Inl e \<Rightarrow> Inl e
                    | Inr remainder' \<Rightarrow> cf_loop ops n remainder' coefficients')))"

definition get_continued_fraction :: "'f float_ops \<Rightarrow> 'f \<Rightarrow> int \<Rightarrow> pyerror + int list" where
  "get_continued_fraction ops x max_terms =
     (case cf_loop ops (nat max_terms) x [] of
        Inl e \<Rightarrow> Inl e
      | Inr (coefficients, _) \<Rightarrow> Inr coefficients)"

text \<open>The exit the loop of \<open>get_continued_fraction\<close> took: local to the call, not returned.\<close>

definition cf_exit :: "'f float_ops \<Rightarrow> 'f \<Rightarrow> int \<Rightarrow> pyerror + loop_exit" where
  "cf_exit ops x max_terms =
     (case cf_loop ops (nat max_terms) x [] of
        Inl e \<Rightarrow> Inl e
      | Inr (_, exit) \<Rightarrow> Inr exit)"

subsection \<open>The convergent builder\<close>

text \<open>
  The generator \<^verbatim>\<open>get_convergents\<close> yields one pair for each coefficient; the model
  returns the list of the pairs yielded. The four arguments of \<open>convergents_loop\<close> are the
  locals \<^verbatim>\<open>p_prev2, p_prev1, q_prev2, q_prev1\<close>.
\<close>

fun convergents_loop :: "int \<Rightarrow> int \<Rightarrow> int \<Rightarrow> int \<Rightarrow> int list \<Rightarrow> (int \<times> int) list" where
  "convergents_loop p_prev2 p_prev1 q_prev2 q_prev1 [] = []"
| "convergents_loop p_prev2 p_prev1 q_prev2 q_prev1 (a # rest) =
     (let p = a * p_prev1 + p_prev2;
          q = a * q_prev1 + q_prev2
      in (p, q) # convergents_loop p_prev1 p q_prev1 q rest)"

definition get_convergents :: "int list \<Rightarrow> (int \<times> int) list" where
  "get_convergents cf_coefficients = convergents_loop 0 1 1 0 cf_coefficients"

subsection \<open>The search controller\<close>

text \<open>
  The result is a Python dictionary from strings to an integer, a float or a string.
\<close>

datatype 'f pyval = PyInt int | PyFloat 'f | PyStr string

type_synonym 'f pydict = "string \<rightharpoonup> 'f pyval"

definition found_dict :: "int \<Rightarrow> int \<Rightarrow> int \<Rightarrow> int \<Rightarrow> 'f \<Rightarrow> 'f \<Rightarrow> 'f pydict" where
  "found_dict k D p q pi_approx error =
     [''power_k'' \<mapsto> PyInt k,
      ''digits_D'' \<mapsto> PyInt D,
      ''convergent_p'' \<mapsto> PyInt p,
      ''convergent_q'' \<mapsto> PyInt q,
      ''pi_approximation'' \<mapsto> PyFloat pi_approx,
      ''error'' \<mapsto> PyFloat error]"

definition not_found_dict :: "'f pydict" where
  "not_found_dict = [''error'' \<mapsto> PyStr ''Could not find a suitable approximation.'']"

text \<open>
  One pass through the body of \<^verbatim>\<open>while True\<close>: it ends in \<^verbatim>\<open>continue\<close> or falls
  through to the next pass (\<open>Continue\<close> with the new \<^verbatim>\<open>num_terms\<close>), in a
  \<^verbatim>\<open>return\<close>, or in an exception. \<^verbatim>\<open>convergents[-1]\<close> raises IndexError on an empty
  list. The \<^verbatim>\<open>q == 0\<close> branch continues without testing the limit of 50.
\<close>

datatype 'f iteration = Continue int | Return "'f pydict" | Raise pyerror

definition search_step ::
  "'f float_ops \<Rightarrow> int \<Rightarrow> int \<Rightarrow> 'f \<Rightarrow> 'f \<Rightarrow> int \<Rightarrow> 'f iteration" where
  "search_step ops k D tolerance target_value num_terms =
     (case get_continued_fraction ops target_value num_terms of
        Inl e \<Rightarrow> Raise e
      | Inr cf \<Rightarrow>
          (let convergents = get_convergents cf
           in if convergents = [] then Raise IndexError
              else (case last convergents of
                (p, q) \<Rightarrow>
                  if q = 0 then Continue (num_terms + 1)
                  else (case fl_true_div ops p q of
                    Inl e \<Rightarrow> Raise e
                  | Inr ratio \<Rightarrow>
                      (case fl_kth_root ops ratio k of
                         Inl e \<Rightarrow> Raise e
                       | Inr pi_approx \<Rightarrow>
                           (let error = fl_abs_diff_pi ops pi_approx
                            in if fl_less ops error tolerance
                               then Return (found_dict k D p q pi_approx error)
                               else if num_terms + 1 > 50 then Return not_found_dict
                               else Continue (num_terms + 1)))))))"

text \<open>
  The loop itself may run forever as far as its text goes, so it is a partial function:
  \<open>None\<close> is a run that never returns, \<open>Some (Inl e)\<close> an exception, \<open>Some (Inr d)\<close>
  the dictionary returned.
\<close>

partial_function (option) search_loop ::
  "'f float_ops \<Rightarrow> int \<Rightarrow> int \<Rightarrow> 'f \<Rightarrow> 'f \<Rightarrow> int \<Rightarrow> (pyerror + 'f pydict) option" where
  "search_loop ops k D tolerance target_value num_terms =
     (case search_step ops k D tolerance target_value num_terms of
        Continue num_terms' \<Rightarrow> search_loop ops k D tolerance target_value num_terms'
      | Return result \<Rightarrow> Some (Inr result)
      | Raise e \<Rightarrow> Some (Inl e))"

definition find_pi_approximation_to_d_digits ::
  "'f float_ops \<Rightarrow> int \<Rightarrow> int \<Rightarrow> (pyerror + 'f pydict) option" where
  "find_pi_approximation_to_d_digits ops k D =
     (case fl_tolerance ops D of
        Inl e \<Rightarrow> Some (Inl e)
      | Inr tolerance \<Rightarrow>
          (case fl_pi_pow ops k of
             Inl e \<Rightarrow> Some (Inl e)
           | Inr target_value \<Rightarrow> search_loop ops k D tolerance target_value 2))"

subsection \<open>Notions used to state the properties\<close>

text \<open>
  Continued-fraction normal form: every coefficient after the first is at least 1.
\<close>

definition normal_form :: "int list \<Rightarrow> bool" where
  "normal_form cf = list_all (\<lambda>a. 1 \<le> a) (tl cf)"

text \<open>
  The recurrence at position \<open>n\<close> of an output sequence \<open>out\<close> for the coefficients
  \<open>cf\<close>, with the seed values \<open>p\<^sub>-\<^sub>2 = 0\<close>, \<open>p\<^sub>-\<^sub>1 = 1\<close>, \<open>q\<^sub>-\<^sub>2 = 1\<close>, \<open>q\<^sub>-\<^sub>1 = 0\<close> put in
  front: \<open>p\<^sub>n = a\<^sub>n * p\<^sub>n\<^sub>-\<^sub>1 + p\<^sub>n\<^sub>-\<^sub>2\<close> and \<open>q\<^sub>n = a\<^sub>n * q\<^sub>n\<^sub>-\<^sub>1 + q\<^sub>n\<^sub>-\<^sub>2\<close>.
\<close>

definition recurrence_at :: "int list \<Rightarrow> (int \<times> int) list \<Rightarrow> nat \<Rightarrow> bool" where
  "recurrence_at cf out n =
     (let ps = 0 # 1 # map fst out;
          qs = 1 # 0 # map snd out
      in ps ! (n + 2) = cf ! n * ps ! (n + 1) + ps ! n \<and>
         qs ! (n + 2) = cf ! n * qs ! (n + 1) + qs ! n)"

text \<open>
  The builder as the specification words it: the same recurrence, but a coefficient
  \<open>a \<le> 0\<close> after the first position is rejected with \<open>InvalidCoefficient\<close>. The flag
  tells whether the coefficient at the head of the list is the first one.
\<close>

datatype builder_error = InvalidCoefficient

fun spec_build_from ::
  "bool \<Rightarrow> int \<Rightarrow> int \<Rightarrow> int \<Rightarrow> int \<Rightarrow> int list \<Rightarrow> builder_error + (int \<times> int) list" where
  "spec_build_from first p_prev2 p_prev1 q_prev2 q_prev1 [] = Inr []"
| "spec_build_from first p_prev2 p_prev1 q_prev2 q_prev1 (a # rest) =
     (if \<not> first \<and> a \<le> 0 then Inl InvalidCoefficient
      else (let p = a * p_prev1 + p_prev2;
                q = a * q_prev1 + q_prev2
            in case spec_build_from False p_prev1 p q_prev1 q rest of
                 Inl e \<Rightarrow> Inl e
               | Inr out \<Rightarrow> Inr ((p, q) # out)))"

definition spec_build_convergents :: "int list \<Rightarrow> builder_error + (int \<times> int) list" where
  "spec_build_convergents cf = spec_build_from True 0 1 1 0 cf"

text \<open>
  What the controller computes at one term bound. \<open>last_convergent\<close> is the pair
  \<^verbatim>\<open>convergents[-1]\<close> of the run with bound \<open>num_terms\<close>; \<open>root_approximation\<close> is
  \<^verbatim>\<open>(p / q) ** (1 / k)\<close>; \<open>accuracy_met\<close> says that the run with bound \<open>num_terms\<close>
  reaches the test \<^verbatim>\<open>error < tolerance\<close> and passes it.
\<close>

definition last_convergent :: "'f float_ops \<Rightarrow> 'f \<Rightarrow> int \<Rightarrow> (int \<times> int) option" where
  "last_convergent ops target_value num_terms =
     (case get_continued_fraction ops target_value num_terms of
        Inl e \<Rightarrow> None
      | Inr cf \<Rightarrow> if get_convergents cf = [] then None else Some (last (get_convergents cf)))"

definition root_approximation :: "'f float_ops \<Rightarrow> int \<Rightarrow> int \<Rightarrow> int \<Rightarrow> 'f option" where
  "root_approximation ops k p q =
     (case fl_true_div ops p q of
        Inl e \<Rightarrow> None
      | Inr ratio \<Rightarrow> (case fl_kth_root ops ratio k of Inl e \<Rightarrow> None | Inr a \<Rightarrow> Some a))"

definition accuracy_met :: "'f float_ops \<Rightarrow> int \<Rightarrow> 'f \<Rightarrow> 'f \<Rightarrow> int \<Rightarrow> bool" where
  "accuracy_met ops k tolerance target_value num_terms =
     (case last_convergent ops target_value num_terms of
        None \<Rightarrow> False
      | Some (p, q) \<Rightarrow>
          q \<noteq> 0 \<and>
          (case root_approximation ops k p q of
             None \<Rightarrow> False
           | Some a \<Rightarrow> fl_less ops (fl_abs_diff_pi ops a) tolerance))"

text \<open>
  A fact of binary64 arithmetic that the abstract primitives do not give by themselves.
  For a finite \<open>x\<close> the difference \<^verbatim>\<open>x - floor(x)\<close> is computed within \<open>[0, 1]\<close>; when
  it is not zero, its reciprocal is at least 1 or an infinity, so the floor of the
  reciprocal is at least 1 whenever \<^verbatim>\<open>math.floor\<close> returns one. Hence every coefficient
  after the first is at least 1.
\<close>

definition reciprocal_floor_positive :: "'f float_ops \<Rightarrow> bool" where
  "reciprocal_floor_positive ops =
     (\<forall>x a r b. fl_floor ops x = Inr a \<longrightarrow>
        \<not> fl_isclose0 ops (fl_sub_int ops x a) \<longrightarrow>
        fl_recip ops (fl_sub_int ops x a) = Inr r \<longrightarrow>
        fl_floor ops r = Inr b \<longrightarrow> 1 \<le> b)"

text \<open>The exceptions that the floating-point primitives of a search can raise.\<close>

definition primitive_raises :: "'f float_ops \<Rightarrow> int \<Rightarrow> int \<Rightarrow> pyerror \<Rightarrow> bool" where
  "primitive_raises ops k D e =
     (fl_tolerance ops D = Inl e \<or> fl_pi_pow ops k = Inl e \<or>
      (\<exists>y. fl_floor ops y = Inl e) \<or> (\<exists>y. fl_recip ops y = Inl e) \<or>
      (\<exists>p q. fl_true_div ops p q = Inl e) \<or> (\<exists>y. fl_kth_root ops y k = Inl e))"

subsection \<open>A reference interpretation of the primitives\<close>

text \<open>
  For closed evaluations the primitives are interpreted over the values of binary64:
  a finite value (its exact real number), the two infinities and NaN. The interpretation
  has the range of binary64 (a result of magnitude \<open>2\<^sup>1\<^sup>0\<^sup>2\<^sup>4 - 2\<^sup>9\<^sup>7\<^sup>0\<close> or more
  overflows) and Python's exceptions, and computes finite results exactly, without
  rounding. It follows Python for \<open>k \<ge> 1\<close> and \<open>D \<ge> 1\<close>, the arguments the search is
  meant for, and it is evaluated below only at inputs where rounding does not change a
  floor or a comparison. \<open>math_pi\<close> is the binary64 constant \<^verbatim>\<open>math.pi\<close>,
  \<open>0x1.921fb54442d18p+1\<close>.
\<close>

datatype pyfloat = Finite real | PosInf | NegInf | NaN

definition math_pi :: real where
  "math_pi = 884279719003555 / 281474976710656"

definition overflow_bound :: real where
  "overflow_bound = 2 ^ 1024 - 2 ^ 970"

definition in_range :: "real \<Rightarrow> pyfloat" where
  "in_range r = (if overflow_bound \<le> r then PosInf
                 else if r \<le> - overflow_bound then NegInf
                 else Finite r)"

text \<open>\<^verbatim>\<open>math.floor\<close> raises OverflowError on an infinity and ValueError on NaN.\<close>

fun ref_floor :: "pyfloat \<Rightarrow> pyerror + int" where
  "ref_floor (Finite r) = Inr \<lfloor>r\<rfloor>"
| "ref_floor PosInf = Inl OverflowError"
| "ref_floor NegInf = Inl OverflowError"
| "ref_floor NaN = Inl ValueError"

fun ref_sub_int :: "pyfloat \<Rightarrow> int \<Rightarrow> pyfloat" where
  "ref_sub_int (Finite r) a = in_range (r - of_int a)"
| "ref_sub_int f a = f"

text \<open>
  With the default tolerances (relative \<open>10\<^sup>-\<^sup>9\<close>, absolute 0) \<^verbatim>\<open>math.isclose(f, 0)\<close>
  holds for \<open>f = 0\<close> only.
\<close>

fun ref_isclose0 :: "pyfloat \<Rightarrow> bool" where
  "ref_isclose0 (Finite r) = (r = 0)"
| "ref_isclose0 f = False"

text \<open>
  Float division raises on a zero divisor only; a quotient out of range is an infinity.
\<close>

fun ref_recip :: "pyfloat \<Rightarrow> pyerror + pyfloat" where
  "ref_recip (Finite r) = (if r = 0 then Inl ZeroDivisionError else Inr (in_range (1 / r)))"
| "ref_recip PosInf = Inr (Finite 0)"
| "ref_recip NegInf = Inr (Finite 0)"
| "ref_recip NaN = Inr NaN"

text \<open>
  For \<open>D \<ge> 1\<close> the power \<^verbatim>\<open>10**(-D)\<close> is a float power: it underflows to zero from
  \<open>D = 324\<close> on, and an exponent too large for a float raises OverflowError.
\<close>

definition ref_tolerance :: "int \<Rightarrow> pyerror + pyfloat" where
  "ref_tolerance D =
     (if overflow_bound \<le> of_int D then Inl OverflowError
      else if 324 \<le> D then Inr (Finite 0)
      else Inr (Finite (10 powi (- D))))"

text \<open>A float power out of range raises OverflowError.\<close>

definition ref_pi_pow :: "int \<Rightarrow> pyerror + pyfloat" where
  "ref_pi_pow k = (if overflow_bound \<le> math_pi powi k then Inl OverflowError
                   else Inr (Finite (math_pi powi k)))"

definition ref_true_div :: "int \<Rightarrow> int \<Rightarrow> pyerror + pyfloat" where
  "ref_true_div p q =
     (if q = 0 then Inl ZeroDivisionError
      else if overflow_bound \<le> \<bar>of_int p / of_int q\<bar> then Inl OverflowError
      else Inr (Finite (of_int p / of_int q)))"

text \<open>
  \<^verbatim>\<open>1 / k\<close> raises for \<open>k = 0\<close>. The search applies the root to the finite quotient
  of two integers only; it is interpreted for a base that is not negative and
  \<open>k \<ge> 1\<close>, the case of a power of pi. Elsewhere (where Python may answer with a
  complex number) the interpretation gives NaN, and no statement below evaluates it.
\<close>

fun ref_kth_root :: "pyfloat \<Rightarrow> int \<Rightarrow> pyerror + pyfloat" where
  "ref_kth_root (Finite r) k =
     (if k = 0 then Inl ZeroDivisionError
      else if 0 \<le> r \<and> 1 \<le> k then Inr (Finite (r powr (1 / of_int k)))
      else Inr NaN)"
| "ref_kth_root f k = (if k = 0 then Inl ZeroDivisionError else Inr NaN)"

fun ref_abs_diff_pi :: "pyfloat \<Rightarrow> pyfloat" where
  "ref_abs_diff_pi (Finite r) = Finite \<bar>r - math_pi\<bar>"
| "ref_abs_diff_pi PosInf = PosInf"
| "ref_abs_diff_pi NegInf = PosInf"
| "ref_abs_diff_pi NaN = NaN"

fun ref_less :: "pyfloat \<Rightarrow> pyfloat \<Rightarrow> bool" where
  "ref_less (Finite a) (Finite b) = (a < b)"
| "ref_less (Finite a) PosInf = True"
| "ref_less NegInf (Finite b) = True"
| "ref_less NegInf PosInf = True"
| "ref_less x y = False"

definition ref_ops :: "pyfloat float_ops" where
  "ref_ops =
     \<lparr> fl_floor = ref_floor, fl_sub_int = ref_sub_int, fl_isclose0 = ref_isclose0,
       fl_recip = ref_recip, fl_tolerance = ref_tolerance, fl_pi_pow = ref_pi_pow,
       fl_true_div = ref_true_div, fl_kth_root = ref_kth_root,
       fl_abs_diff_pi = ref_abs_diff_pi, fl_less = ref_less \<rparr>"

subsection \<open>The recurrence of the builder\<close>

lemma length_convergents_loop:
  "length (convergents_loop p2 p1 q2 q1 cf) = length cf"
  by (induction cf arbitrary: p2 p1 q2 q1) (simp_all add: Let_def)

lemma convergents_loop_recurrence:
  "n < length cf \<Longrightarrow>
   (let ps = p2 # p1 # map fst (convergents_loop p2 p1 q2 q1 cf);
        qs = q2 # q1 # map snd (convergents_loop p2 p1 q2 q1 cf)
    in ps ! (n + 2) = cf ! n * ps ! (n + 1) + ps ! n \<and>
       qs ! (n + 2) = cf ! n * qs ! (n + 1) + qs ! n)"
proof (induction cf arbitrary: n p2 p1 q2 q1)
  case Nil
  then show ?case by simp
next
  case (Cons a cf)
  show ?case
  proof (cases n)
    case 0
    then show ?thesis by (simp add: Let_def)
  next
    case (Suc m)
    with Cons.prems have "m < length cf" by simp
    from Cons.IH [OF this, of p1 "a * p1 + p2" q1 "a * q1 + q2"] Suc
    show ?thesis by (simp add: Let_def)
  qed
qed

lemma get_convergents_recurrence_at:
  "n < length cf \<Longrightarrow> recurrence_at cf (get_convergents cf) n"
  using convergents_loop_recurrence [of n cf 0 1 1 0]
  by (simp add: recurrence_at_def get_convergents_def Let_def)

text \<open>
  Claim C1. For every list of integer coefficients \<open>get_convergents\<close> emits exactly one
  pair for each coefficient, in input order; from the seed values \<open>p\<^sub>-\<^sub>2 = 0\<close>,
  \<open>p\<^sub>-\<^sub>1 = 1\<close>, \<open>q\<^sub>-\<^sub>2 = 1\<close>, \<open>q\<^sub>-\<^sub>1 = 0\<close> the \<open>n\<close>-th pair satisfies
  \<open>p\<^sub>n = a\<^sub>n * p\<^sub>n\<^sub>-\<^sub>1 + p\<^sub>n\<^sub>-\<^sub>2\<close> and \<open>q\<^sub>n = a\<^sub>n * q\<^sub>n\<^sub>-\<^sub>1 + q\<^sub>n\<^sub>-\<^sub>2\<close>; the empty list
  yields the empty output.
\<close>

theorem get_convergents_recurrence:
  "get_convergents [] = [] \<and>
   length (get_convergents cf) = length cf \<and>
   (\<forall>n < length cf. recurrence_at cf (get_convergents cf) n)"
proof -
  have "get_convergents [] = []"
    by (simp add: get_convergents_def)
  moreover have "length (get_convergents cf) = length cf"
    by (simp add: get_convergents_def length_convergents_loop)
  ultimately show ?thesis
    by (simp add: get_convergents_recurrence_at)
qed

theorem get_convergents_recurrence_witness:
  "length (get_convergents [3, 7, 15, 1]) = 4 \<and>
   (3::nat) < length [3, 7, 15, 1 :: int] \<and>
   recurrence_at [3, 7, 15, 1] (get_convergents [3, 7, 15, 1]) 3 \<and>
   get_convergents [3, 7, 15, 1] = [(3, 1), (22, 7), (333, 106), (355, 113)]"
  using get_convergents_recurrence [of "[3, 7, 15, 1]"]
  by (simp add: get_convergents_def)

subsection \<open>The determinant identity\<close>

lemma determinant_loop:
  "\<bar>p1 * q2 - p2 * q1\<bar> = 1 \<Longrightarrow> i < length cf \<Longrightarrow>
   (let ps = p1 # map fst (convergents_loop p2 p1 q2 q1 cf);
        qs = q1 # map snd (convergents_loop p2 p1 q2 q1 cf)
    in \<bar>ps ! (i + 1) * qs ! i - ps ! i * qs ! (i + 1)\<bar> = 1)"
proof (induction cf arbitrary: i p2 p1 q2 q1)
  case Nil
  then show ?case by simp
next
  case (Cons a cf)
  have step: "\<bar>(a * p1 + p2) * q1 - p1 * (a * q1 + q2)\<bar> = 1"
  proof -
    have "(a * p1 + p2) * q1 - p1 * (a * q1 + q2) = - (p1 * q2 - p2 * q1)"
      by (simp add: algebra_simps)
    with Cons.prems(1) show ?thesis by simp
  qed
  show ?case
  proof (cases i)
    case 0
    with step show ?thesis by (simp add: Let_def)
  next
    case (Suc m)
    with Cons.prems have "m < length cf" by simp
    from Cons.IH [OF step this] Suc show ?thesis by (simp add: Let_def)
  qed
qed

lemma determinant_abs:
  assumes "i + 1 < length cf"
  shows "\<bar>fst (get_convergents cf ! (i + 1)) * snd (get_convergents cf ! i)
          - fst (get_convergents cf ! i) * snd (get_convergents cf ! (i + 1))\<bar> = 1"
proof -
  have len: "length (get_convergents cf) = length cf"
    by (simp add: get_convergents_def length_convergents_loop)
  have "\<bar>(1::int) * 1 - 0 * 0\<bar> = 1" by simp
  from determinant_loop [OF this assms]
  show ?thesis using assms len by (simp add: Let_def get_convergents_def)
qed

text \<open>
  Claim C3. For a coefficient sequence in normal form, two consecutive convergents
  \<open>(p\<^sub>i, q\<^sub>i)\<close> and \<open>(p\<^sub>i\<^sub>+\<^sub>1, q\<^sub>i\<^sub>+\<^sub>1)\<close> emitted by \<open>get_convergents\<close> satisfy
  \<open>p\<^sub>i\<^sub>+\<^sub>1 * q\<^sub>i - p\<^sub>i * q\<^sub>i\<^sub>+\<^sub>1 = 1\<close> or \<open>= -1\<close>. (The identity needs no condition on
  the coefficients, as \<open>determinant_abs\<close> shows.)
\<close>

theorem get_convergents_determinant:
  assumes "normal_form cf" and "i + 1 < length cf"
  shows "(case (get_convergents cf ! i, get_convergents cf ! (i + 1)) of
            ((p_i, q_i), (p_j, q_j)) \<Rightarrow>
              p_j * q_i - p_i * q_j = 1 \<or> p_j * q_i - p_i * q_j = - 1)"
  using determinant_abs [OF assms(2)] by (auto simp: split_beta abs_if split: if_splits)

theorem get_convergents_determinant_witness:
  "normal_form [3, 7, 15, 1] \<and> (2::nat) + 1 < length [3, 7, 15, 1 :: int] \<and>
   get_convergents [3, 7, 15, 1] ! 2 = (333, 106) \<and>
   get_convergents [3, 7, 15, 1] ! 3 = (355, 113) \<and>
   (355 * 106 - 333 * 113 = (1::int) \<or> 355 * 106 - 333 * 113 = (- 1::int))"
  using get_convergents_determinant [of "[3, 7, 15, 1]" 2]
  by (simp add: normal_form_def get_convergents_def)

subsection \<open>Denominators: positivity and growth\<close>

lemma denominators_loop_positive:
  "0 \<le> q2 \<Longrightarrow> 1 \<le> q1 \<Longrightarrow> list_all (\<lambda>a. 1 \<le> a) cf \<Longrightarrow>
   \<forall>(p, q) \<in> set (convergents_loop p2 p1 q2 q1 cf). 1 \<le> q"
proof (induction cf arbitrary: p2 p1 q2 q1)
  case Nil
  then show ?case by simp
next
  case (Cons a cf)
  from Cons.prems have a: "1 \<le> a" and rest: "list_all (\<lambda>a. 1 \<le> a) cf" by simp_all
  from a Cons.prems(2) have "1 * 1 \<le> a * q1" by (intro mult_mono) simp_all
  with Cons.prems(1) have q: "1 \<le> a * q1 + q2" by simp
  from Cons.prems(2) have "0 \<le> q1" by simp
  from Cons.IH [OF this q rest] q show ?case by (simp add: Let_def)
qed

lemma get_convergents_denominators_positive:
  assumes "normal_form cf"
  shows "\<forall>(p, q) \<in> set (get_convergents cf). 1 \<le> q"
proof (cases cf)
  case Nil
  then show ?thesis by (simp add: get_convergents_def)
next
  case (Cons a rest)
  with assms have "list_all (\<lambda>a. 1 \<le> a) rest" by (simp add: normal_form_def)
  from denominators_loop_positive [OF _ _ this, of 0 1 1 a] Cons
  show ?thesis by (simp add: get_convergents_def Let_def)
qed

lemma denominators_loop_increasing:
  "1 \<le> q2 \<Longrightarrow> 1 \<le> q1 \<Longrightarrow> list_all (\<lambda>a. 1 \<le> a) cf \<Longrightarrow> i < length cf \<Longrightarrow>
   snd (((p1, q1) # convergents_loop p2 p1 q2 q1 cf) ! i)
     < snd (((p1, q1) # convergents_loop p2 p1 q2 q1 cf) ! (i + 1))"
proof (induction cf arbitrary: i p2 p1 q2 q1)
  case Nil
  then show ?case by simp
next
  case (Cons a cf)
  from Cons.prems have a: "1 \<le> a" and rest: "list_all (\<lambda>a. 1 \<le> a) cf" by simp_all
  from a Cons.prems(2) have "1 * q1 \<le> a * q1" by (intro mult_right_mono) simp_all
  with Cons.prems(1) have q: "q1 < a * q1 + q2" by simp
  with Cons.prems(2) have q': "1 \<le> a * q1 + q2" by simp
  show ?case
  proof (cases i)
    case 0
    with q show ?thesis by (simp add: Let_def)
  next
    case (Suc m)
    with Cons.prems have "m < length cf" by simp
    from Cons.IH [OF Cons.prems(2) q' rest this, of "a * p1 + p2" p1] Suc
    show ?thesis by (simp add: Let_def)
  qed
qed

text \<open>
  Claim C7. When every coefficient from the second position on is at least 1, the
  denominators of the emitted convergents increase strictly from index 1 on:
  \<open>q\<^sub>i < q\<^sub>i\<^sub>+\<^sub>1\<close> for all \<open>i \<ge> 1\<close>. (At index 0 only \<open>q\<^sub>0 \<le> q\<^sub>1\<close> holds:
  \<open>[3, 1]\<close> gives the denominators 1 and 1.)
\<close>

theorem denominators_increasing:
  assumes "normal_form cf" and "1 \<le> i" and "i + 1 < length cf"
  shows "snd (get_convergents cf ! i) < snd (get_convergents cf ! (i + 1))"
proof -
  from assms(2,3) obtain a0 a1 rest where cf: "cf = a0 # a1 # rest"
    by (cases cf; cases "tl cf") auto
  from assms(2) obtain m where i: "i = Suc m" by (cases i) auto
  from assms(1) cf have a1: "1 \<le> a1" and rest: "list_all (\<lambda>a. 1 \<le> a) rest"
    by (simp_all add: normal_form_def)
  from assms(3) cf i have m: "m < length rest" by simp
  have gc: "get_convergents cf =
      (a0, 1) # (a1 * a0 + 1, a1) # convergents_loop a0 (a1 * a0 + 1) 1 a1 rest"
    by (simp add: cf get_convergents_def Let_def)
  have "(1::int) \<le> 1" by simp
  from denominators_loop_increasing [OF this a1 rest m, of "a1 * a0 + 1" a0]
  show ?thesis by (simp add: gc i)
qed

theorem denominators_increasing_witness:
  "normal_form [3, 1, 1, 2] \<and> (1::nat) \<le> 1 \<and> (1::nat) + 1 < length [3, 1, 1, 2 :: int] \<and>
   get_convergents [3, 1, 1, 2] = [(3, 1), (4, 1), (7, 2), (18, 5)] \<and>
   snd (get_convergents [3, 1, 1, 2] ! 1) < snd (get_convergents [3, 1, 1, 2] ! (1 + 1))"
  using denominators_increasing [of "[3, 1, 1, 2]" 1]
  by (simp add: normal_form_def get_convergents_def)

text \<open>
  Claim C8 says that every pair emitted for every coefficient list has \<open>q \<ge> 1\<close>. The
  list \<open>[1, 0]\<close> refutes it: its second convergent is \<open>(1, 0)\<close>.
\<close>

theorem zero_denominator_counterexample:
  "\<not> (\<forall>(p, q) \<in> set (get_convergents [1, 0]). 1 \<le> q) \<and>
   get_convergents [1, 0] = [(1, 1), (1, 0)]"
  by (simp add: get_convergents_def)

text \<open>
  Claim C8, amended. For every coefficient list in normal form every pair emitted by
  \<open>get_convergents\<close> has \<open>q \<ge> 1\<close>; in particular the last convergent of a non-empty
  list in normal form has \<open>q \<noteq> 0\<close>, so the controller's test \<^verbatim>\<open>q == 0\<close> fails on it.
\<close>

theorem denominators_positive:
  assumes "normal_form cf"
  shows "(\<forall>(p, q) \<in> set (get_convergents cf). 1 \<le> q) \<and>
         (cf \<noteq> [] \<longrightarrow> snd (last (get_convergents cf)) \<noteq> 0)"
proof -
  have pos: "\<forall>(p, q) \<in> set (get_convergents cf). 1 \<le> q"
    using assms by (rule get_convergents_denominators_positive)
  have "snd (last (get_convergents cf)) \<noteq> 0" if "cf \<noteq> []"
  proof -
    from that have "get_convergents cf \<noteq> []"
      using length_convergents_loop [of 0 1 1 0 cf] by (auto simp: get_convergents_def)
    then have "last (get_convergents cf) \<in> set (get_convergents cf)" by simp
    with pos show ?thesis by (auto simp: split_beta)
  qed
  with pos show ?thesis by simp
qed

theorem denominators_positive_witness:
  "normal_form [3, 7, 15, 1] \<and>
   list_all (\<lambda>(p, q). 1 \<le> q) (get_convergents [3, 7, 15, 1]) \<and>
   [3, 7, 15, 1 :: int] \<noteq> [] \<and> snd (last (get_convergents [3, 7, 15, 1])) \<noteq> 0"
  using denominators_positive [of "[3, 7, 15, 1]"]
  by (simp add: normal_form_def list_all_iff)

subsection \<open>The builder does not validate its input\<close>

lemma spec_build_from_valid:
  "list_all (\<lambda>a. 1 \<le> a) cf \<Longrightarrow>
   spec_build_from first p2 p1 q2 q1 cf = Inr (convergents_loop p2 p1 q2 q1 cf)"
  by (induction cf arbitrary: first p2 p1 q2 q1) (auto simp: Let_def)

lemma spec_build_from_invalid:
  "\<not> list_all (\<lambda>a. 1 \<le> a) cf \<Longrightarrow>
   spec_build_from False p2 p1 q2 q1 cf = Inl InvalidCoefficient"
  by (induction cf arbitrary: p2 p1 q2 q1) (auto simp: Let_def)

lemma spec_build_convergents_eq:
  "spec_build_convergents cf =
     (if normal_form cf then Inr (get_convergents cf) else Inl InvalidCoefficient)"
proof (cases cf)
  case Nil
  then show ?thesis
    by (simp add: spec_build_convergents_def normal_form_def get_convergents_def)
next
  case (Cons a rest)
  show ?thesis
  proof (cases "list_all (\<lambda>a. 1 \<le> a) rest")
    case True
    with Cons spec_build_from_valid [OF True, of False 1 a 0 1]
    show ?thesis
      by (simp add: spec_build_convergents_def normal_form_def get_convergents_def Let_def)
  next
    case False
    with Cons spec_build_from_invalid [OF False, of 1 a 0 1]
    show ?thesis
      by (simp add: spec_build_convergents_def normal_form_def get_convergents_def Let_def)
  qed
qed

text \<open>
  Claim C4 says that a non-positive coefficient after the first makes the builder fail
  with \<open>InvalidCoefficient\<close>. On \<open>[1, 0]\<close> the builder of the specification fails, and
  \<open>get_convergents\<close> emits two pairs, the second computed from the coefficient 0.
\<close>

theorem invalid_coefficient_counterexample:
  "\<not> normal_form [1, 0] \<and>
   spec_build_convergents [1, 0] = Inl InvalidCoefficient \<and>
   get_convergents [1, 0] = [(1, 1), (1, 0)]"
  by (simp add: normal_form_def spec_build_convergents_def get_convergents_def)

text \<open>
  Claim C4, amended. \<open>get_convergents\<close> does not validate its input: for a coefficient
  list with a non-positive coefficient after the first position, where the builder of
  the specification fails with \<open>InvalidCoefficient\<close>, it still emits one pair for each
  coefficient, each computed by the recurrence.
\<close>

theorem get_convergents_unvalidated:
  assumes "\<not> normal_form cf"
  shows "spec_build_convergents cf = Inl InvalidCoefficient \<and>
         length (get_convergents cf) = length cf \<and>
         (\<forall>n < length cf. recurrence_at cf (get_convergents cf) n)"
proof -
  have "length (get_convergents cf) = length cf"
    by (simp add: get_convergents_def length_convergents_loop)
  with assms show ?thesis
    by (simp add: spec_build_convergents_eq get_convergents_recurrence_at)
qed

theorem get_convergents_unvalidated_witness:
  "\<not> normal_form [1, 0, 2] \<and>
   spec_build_convergents [1, 0, 2] = Inl InvalidCoefficient \<and>
   length (get_convergents [1, 0, 2]) = 3 \<and>
   get_convergents [1, 0, 2] = [(1, 1), (1, 0), (3, 1)] \<and>
   recurrence_at [1, 0, 2] (get_convergents [1, 0, 2]) 1"
  using get_convergents_unvalidated [of "[1, 0, 2]"]
  by (simp add: normal_form_def get_convergents_def)

subsection \<open>Length, exits and exceptions of the coefficient generator\<close>

lemma cf_loop_length:
  "cf_loop ops n x acc = Inr (cf, ex) \<Longrightarrow>
   length acc \<le> length cf \<and> length cf \<le> length acc + n \<and>
   (0 < n \<longrightarrow> length acc < length cf) \<and>
   (ex = Exhausted \<longrightarrow> length cf = length acc + n)"
proof (induction n arbitrary: x acc)
  case 0
  then show ?case by simp
next
  case (Suc n)
  from Suc.prems obtain a where a: "fl_floor ops x = Inr a"
    by (auto split: sum.splits)
  show ?case
  proof (cases "fl_isclose0 ops (fl_sub_int ops x a)")
    case True
    with Suc.prems a show ?thesis by (auto simp: Let_def)
  next
    case False
    with Suc.prems a obtain r where r: "fl_recip ops (fl_sub_int ops x a) = Inr r"
      and rec: "cf_loop ops n r (acc @ [a]) = Inr (cf, ex)"
      by (auto simp: Let_def split: sum.splits)
    from Suc.IH [OF rec] show ?thesis by auto
  qed
qed

lemma cf_loop_raises:
  "cf_loop ops n x acc = Inl e \<Longrightarrow>
   (\<exists>y. fl_floor ops y = Inl e) \<or> (\<exists>y. fl_recip ops y = Inl e)"
proof (induction n arbitrary: x acc)
  case 0
  then show ?case by simp
next
  case (Suc n)
  show ?case
  proof (cases "fl_floor ops x")
    case (Inl e')
    with Suc.prems have "e' = e" by simp
    with Inl show ?thesis by blast
  next
    case (Inr a)
    show ?thesis
    proof (cases "fl_recip ops (fl_sub_int ops x a)")
      case (Inl e')
      with Suc.prems Inr have "e' = e" by (simp add: Let_def split: if_splits)
      with Inl show ?thesis by blast
    next
      case r: (Inr r)
      with Suc.prems Inr have "cf_loop ops n r (acc @ [a]) = Inl e"
        by (simp add: Let_def split: if_splits)
      then show ?thesis by (rule Suc.IH)
    qed
  qed
qed

lemma cf_loop_integer:
  "fl_floor ops x = Inr a \<Longrightarrow> fl_isclose0 ops (fl_sub_int ops x a) \<Longrightarrow>
   cf_loop ops (Suc n) x acc = Inr (acc @ [a], Broke)"
  by (simp add: Let_def)

lemma get_continued_fraction_cases:
  "(\<exists>e. cf_loop ops (nat m) x [] = Inl e \<and> get_continued_fraction ops x m = Inl e \<and>
        cf_exit ops x m = Inl e) \<or>
   (\<exists>cf ex. cf_loop ops (nat m) x [] = Inr (cf, ex) \<and>
        get_continued_fraction ops x m = Inr cf \<and> cf_exit ops x m = Inr ex)"
  by (cases "cf_loop ops (nat m) x []")
     (auto simp: get_continued_fraction_def cf_exit_def)

lemma overflow_bound_gt_1: "1 < overflow_bound"
  by (simp add: overflow_bound_def)

lemma in_range_small: "\<bar>r\<bar> \<le> 1 \<Longrightarrow> in_range r = Finite r"
  using overflow_bound_gt_1 by (auto simp: in_range_def)

lemma overflow_bound_gt_16: "16 < overflow_bound"
  by (simp add: overflow_bound_def)

lemma in_range_16: "\<bar>r\<bar> \<le> 16 \<Longrightarrow> in_range r = Finite r"
  using overflow_bound_gt_16 by (auto simp: in_range_def)

text \<open>
  Claim C5 says that the generator returns a \<open>precision_exhausted\<close> flag beside the
  coefficients. It returns the list only, and the list does not determine the exit: on
  \<open>3.0\<close> and on \<open>3.5\<close> with \<open>max_terms = 1\<close> it returns \<open>[3]\<close>, the first time
  through \<^verbatim>\<open>break\<close> (the fractional part is zero), the second time with the range
  exhausted.
\<close>

theorem precision_flag_counterexample:
  "get_continued_fraction ref_ops (Finite 3) 1 = Inr [3] \<and>
   get_continued_fraction ref_ops (Finite (7 / 2)) 1 = Inr [3] \<and>
   cf_exit ref_ops (Finite 3) 1 = Inr Broke \<and>
   cf_exit ref_ops (Finite (7 / 2)) 1 = Inr Exhausted"
  by (simp add: get_continued_fraction_def cf_exit_def ref_ops_def in_range_small)

text \<open>
  Claim C5, amended. \<open>get_continued_fraction\<close> returns the coefficient sequence and no
  flag. The caller can tell that the loop stopped because the fractional remainder was
  indistinguishable from zero only from a returned sequence shorter than \<open>max_terms\<close>;
  a run that exhausts the range returns exactly \<open>max_terms\<close> coefficients.
\<close>

theorem early_exit_observable_when_short:
  assumes "get_continued_fraction ops x max_terms = Inr cf"
  shows "\<exists>ex. cf_exit ops x max_terms = Inr ex \<and>
           (length cf < nat max_terms \<longrightarrow> ex = Broke) \<and>
           (ex = Exhausted \<longrightarrow> length cf = nat max_terms)"
proof -
  from assms get_continued_fraction_cases [of ops max_terms x]
  obtain ex where loop: "cf_loop ops (nat max_terms) x [] = Inr (cf, ex)"
    and ex: "cf_exit ops x max_terms = Inr ex"
    by auto
  from cf_loop_length [OF loop] have "ex = Exhausted \<longrightarrow> length cf = nat max_terms"
    by simp
  moreover from this have "length cf < nat max_terms \<longrightarrow> ex = Broke"
    by (cases ex) auto
  ultimately show ?thesis using ex by blast
qed

theorem early_exit_observable_when_short_witness:
  "get_continued_fraction ref_ops (Finite (7 / 2)) 5 = Inr [3, 2] \<and>
   length [3, 2 :: int] < nat 5 \<and>
   cf_exit ref_ops (Finite (7 / 2)) 5 = Inr Broke"
proof -
  have run: "get_continued_fraction ref_ops (Finite (7 / 2)) 5 = Inr [3, 2]"
    by (simp add: get_continued_fraction_def ref_ops_def in_range_16 eval_nat_numeral)
  from early_exit_observable_when_short [OF run] run show ?thesis by auto
qed

text \<open>
  Where the generator returns, its result is as expected: for every \<open>x\<close> and every
  positive \<open>max_terms\<close> a returned sequence has between 1 and \<open>max_terms\<close>
  coefficients, an exception can only come from \<^verbatim>\<open>math.floor\<close> or from the division,
  and when \<open>x\<close> is an integer (\<open>x\<close> minus its floor is zero for \<^verbatim>\<open>math.isclose\<close>) the
  result is the one-element sequence of the floor of \<open>x\<close>.
\<close>

lemma get_continued_fraction_length:
  assumes "0 < max_terms"
  shows "(\<forall>cf. get_continued_fraction ops x max_terms = Inr cf \<longrightarrow>
            1 \<le> length cf \<and> length cf \<le> nat max_terms) \<and>
         (\<forall>e. get_continued_fraction ops x max_terms = Inl e \<longrightarrow>
            (\<exists>y. fl_floor ops y = Inl e) \<or> (\<exists>y. fl_recip ops y = Inl e)) \<and>
         (\<forall>a. fl_floor ops x = Inr a \<and> fl_isclose0 ops (fl_sub_int ops x a) \<longrightarrow>
            get_continued_fraction ops x max_terms = Inr [a])"
proof (intro conjI allI impI)
  fix cf
  assume "get_continued_fraction ops x max_terms = Inr cf"
  with get_continued_fraction_cases [of ops max_terms x]
  obtain ex where "cf_loop ops (nat max_terms) x [] = Inr (cf, ex)" by auto
  from cf_loop_length [OF this] assms
  have "0 < length cf" and le: "length cf \<le> nat max_terms" by simp_all
  then show "1 \<le> length cf" by (cases cf) simp_all
  from le show "length cf \<le> nat max_terms" .
next
  fix e
  assume "get_continued_fraction ops x max_terms = Inl e"
  with get_continued_fraction_cases [of ops max_terms x]
  have "cf_loop ops (nat max_terms) x [] = Inl e" by auto
  then show "(\<exists>y. fl_floor ops y = Inl e) \<or> (\<exists>y. fl_recip ops y = Inl e)"
    by (rule cf_loop_raises)
next
  fix a
  assume int: "fl_floor ops x = Inr a \<and> fl_isclose0 ops (fl_sub_int ops x a)"
  from assms obtain n where n: "nat max_terms = Suc n" by (cases "nat max_terms") auto
  from int have "cf_loop ops (Suc n) x [] = Inr ([] @ [a], Broke)"
    by (intro cf_loop_integer) simp_all
  with n show "get_continued_fraction ops x max_terms = Inr [a]"
    by (simp add: get_continued_fraction_def)
qed

text \<open>
  Claim C9. For every real \<open>x\<close> and every positive \<open>max_terms\<close> the generator returns a
  coefficient sequence of length at most \<open>max_terms\<close>. The code fails to do so on a
  positive \<open>x\<close> close to zero. Its comment says that the loop stops when the fractional
  part is very close to zero, but \<^verbatim>\<open>math.isclose(f, 0)\<close> with the default absolute
  tolerance 0 holds for \<open>f = 0\<close> only. On the least positive binary64 value
  \<open>2\<^sup>-\<^sup>1\<^sup>0\<^sup>7\<^sup>4\<close> with \<open>max_terms = 2\<close> the first pass appends 0 and does not stop, the
  reciprocal of the fractional part overflows to infinity, and \<^verbatim>\<open>math.floor\<close> raises
  OverflowError in the second pass, where \<open>[0]\<close> was to be returned.
\<close>

theorem get_continued_fraction_tiny_input_raises:
  "fl_floor ref_ops (Finite (1 / 2 ^ 1074)) = Inr 0 \<and>
   fl_isclose0 ref_ops (fl_sub_int ref_ops (Finite (1 / 2 ^ 1074)) 0) = False \<and>
   fl_recip ref_ops (Finite (1 / 2 ^ 1074)) = Inr PosInf \<and>
   get_continued_fraction ref_ops (Finite (1 / 2 ^ 1074)) 1 = Inr [0] \<and>
   get_continued_fraction ref_ops (Finite (1 / 2 ^ 1074)) 2 = Inl OverflowError"
  by (simp add: get_continued_fraction_def ref_ops_def in_range_def overflow_bound_def
      numeral_2_eq_2)

text \<open>
  In the reference interpretation every integer within the range is such an input.
\<close>

lemma ref_integer_input:
  assumes "0 < max_terms" and "\<bar>real_of_int n\<bar> < overflow_bound"
  shows "get_continued_fraction ref_ops (Finite (of_int n)) max_terms = Inr [n]"
proof -
  from assms(1) obtain m where m: "nat max_terms = Suc m" by (cases "nat max_terms") auto
  have "fl_floor ref_ops (Finite (of_int n)) = Inr n"
    by (simp add: ref_ops_def)
  moreover have "fl_isclose0 ref_ops (fl_sub_int ref_ops (Finite (of_int n)) n)"
    by (simp add: ref_ops_def in_range_small)
  ultimately have "cf_loop ref_ops (Suc m) (Finite (of_int n)) [] = Inr ([] @ [n], Broke)"
    by (rule cf_loop_integer)
  with m show ?thesis by (simp add: get_continued_fraction_def)
qed

subsection \<open>The result dictionaries\<close>

lemma found_dict_lookup:
  "found_dict k D p q a e ''power_k'' = Some (PyInt k)"
  "found_dict k D p q a e ''digits_D'' = Some (PyInt D)"
  "found_dict k D p q a e ''convergent_p'' = Some (PyInt p)"
  "found_dict k D p q a e ''convergent_q'' = Some (PyInt q)"
  "found_dict k D p q a e ''pi_approximation'' = Some (PyFloat a)"
  "found_dict k D p q a e ''error'' = Some (PyFloat e)"
  by (simp_all add: found_dict_def)

lemma dom_found_dict:
  "dom (found_dict k D p q a e) =
     {''power_k'', ''digits_D'', ''convergent_p'', ''convergent_q'', ''pi_approximation'',
      ''error''}"
  by (auto simp: found_dict_def)

lemma not_found_dict_lookup:
  "not_found_dict ''error'' = Some (PyStr ''Could not find a suitable approximation.'')"
  "not_found_dict ''convergent_p'' = None"
  by (simp_all add: not_found_dict_def)

lemma dom_not_found_dict: "dom not_found_dict = {''error''}"
  by (simp add: not_found_dict_def)

lemma found_dict_neq_not_found: "found_dict k D p q a e \<noteq> not_found_dict"
proof
  assume "found_dict k D p q a e = not_found_dict"
  then have "found_dict k D p q a e ''convergent_p'' = not_found_dict ''convergent_p''"
    by simp
  then show False by (simp add: found_dict_lookup not_found_dict_lookup)
qed

subsection \<open>One pass of the search loop\<close>

lemma search_step_Continue:
  assumes "search_step ops k D tol target T = Continue n"
  shows "n = T + 1 \<and> \<not> accuracy_met ops k tol target T"
  using assms
  by (auto simp: search_step_def accuracy_met_def last_convergent_def root_approximation_def
      Let_def split: sum.splits if_splits prod.splits)

lemma search_step_Return:
  assumes "search_step ops k D tol target T = Return d"
  shows "(\<exists>cf p q a. get_continued_fraction ops target T = Inr cf \<and>
            get_convergents cf \<noteq> [] \<and> last (get_convergents cf) = (p, q) \<and> q \<noteq> 0 \<and>
            root_approximation ops k p q = Some a \<and>
            fl_less ops (fl_abs_diff_pi ops a) tol \<and>
            d = found_dict k D p q a (fl_abs_diff_pi ops a)) \<or>
         (d = not_found_dict \<and> 50 < T + 1 \<and> \<not> accuracy_met ops k tol target T)"
proof -
  from assms obtain cf where cf: "get_continued_fraction ops target T = Inr cf"
    by (auto simp: search_step_def split: sum.splits)
  from assms cf have ne: "get_convergents cf \<noteq> []"
    by (auto simp: search_step_def Let_def split: if_splits)
  obtain p q where pq: "last (get_convergents cf) = (p, q)"
    by (cases "last (get_convergents cf)")
  from assms cf ne pq have q: "q \<noteq> 0"
    by (auto simp: search_step_def Let_def split: if_splits)
  from assms cf ne pq q obtain ratio where ratio: "fl_true_div ops p q = Inr ratio"
    by (auto simp: search_step_def Let_def split: sum.splits)
  from assms cf ne pq q ratio obtain a where a: "fl_kth_root ops ratio k = Inr a"
    by (auto simp: search_step_def Let_def split: sum.splits)
  from ratio a have root: "root_approximation ops k p q = Some a"
    by (simp add: root_approximation_def)
  from cf ne pq q root
  have met: "accuracy_met ops k tol target T = fl_less ops (fl_abs_diff_pi ops a) tol"
    by (simp add: accuracy_met_def last_convergent_def)
  show ?thesis
  proof (cases "fl_less ops (fl_abs_diff_pi ops a) tol")
    case True
    with assms cf ne pq q ratio a have "d = found_dict k D p q a (fl_abs_diff_pi ops a)"
      by (simp add: search_step_def Let_def)
    with cf ne pq q root True show ?thesis by blast
  next
    case False
    with assms cf ne pq q ratio a have "d = not_found_dict \<and> 50 < T + 1"
      by (simp add: search_step_def Let_def split: if_splits)
    with False met show ?thesis by simp
  qed
qed

lemma search_step_Continue_run:
  assumes "search_step ops k D tol target T = Continue n"
  shows "\<exists>cf p q. get_continued_fraction ops target T = Inr cf \<and>
           get_convergents cf \<noteq> [] \<and> last (get_convergents cf) = (p, q) \<and>
           (q = 0 \<or>
            (\<exists>ratio a. fl_true_div ops p q = Inr ratio \<and> fl_kth_root ops ratio k = Inr a \<and>
               \<not> fl_less ops (fl_abs_diff_pi ops a) tol))"
proof -
  from assms obtain cf where cf: "get_continued_fraction ops target T = Inr cf"
    by (auto simp: search_step_def split: sum.splits)
  from assms cf have ne: "get_convergents cf \<noteq> []"
    by (auto simp: search_step_def Let_def split: if_splits)
  obtain p q where pq: "last (get_convergents cf) = (p, q)"
    by (cases "last (get_convergents cf)")
  show ?thesis
  proof (cases "q = 0")
    case True
    with cf ne pq show ?thesis by blast
  next
    case False
    with assms cf ne pq obtain ratio where ratio: "fl_true_div ops p q = Inr ratio"
      by (auto simp: search_step_def Let_def split: sum.splits)
    from assms cf ne pq False ratio obtain a where a: "fl_kth_root ops ratio k = Inr a"
      by (auto simp: search_step_def Let_def split: sum.splits)
    from assms cf ne pq False ratio a have "\<not> fl_less ops (fl_abs_diff_pi ops a) tol"
      by (auto simp: search_step_def Let_def split: if_splits)
    with cf ne pq ratio a show ?thesis by blast
  qed
qed

lemma root_approximation_Some:
  assumes "root_approximation ops k p q = Some a"
  shows "\<exists>ratio. fl_true_div ops p q = Inr ratio \<and> fl_kth_root ops ratio k = Inr a"
  using assms by (auto simp: root_approximation_def split: sum.splits)

lemma search_step_Raise:
  assumes "search_step ops k D tol target T = Raise e" and "1 \<le> T"
  shows "(\<exists>y. fl_floor ops y = Inl e) \<or> (\<exists>y. fl_recip ops y = Inl e) \<or>
         (\<exists>p q. fl_true_div ops p q = Inl e) \<or> (\<exists>y. fl_kth_root ops y k = Inl e)"
proof (cases "get_continued_fraction ops target T")
  case (Inl e')
  with assms(1) have "e' = e" by (simp add: search_step_def)
  with Inl get_continued_fraction_cases [of ops T target]
  have "cf_loop ops (nat T) target [] = Inl e" by auto
  from cf_loop_raises [OF this] show ?thesis by blast
next
  case (Inr cf)
  with get_continued_fraction_cases [of ops T target]
  obtain ex where "cf_loop ops (nat T) target [] = Inr (cf, ex)" by auto
  from cf_loop_length [OF this] assms(2) have "cf \<noteq> []" by auto
  then have ne: "get_convergents cf \<noteq> []"
    using length_convergents_loop [of 0 1 1 0 cf] by (auto simp: get_convergents_def)
  obtain p q where pq: "last (get_convergents cf) = (p, q)" by (cases "last (get_convergents cf)")
  from assms(1) Inr ne pq show ?thesis
    by (auto simp: search_step_def Let_def split: sum.splits if_splits)
qed

subsection \<open>The search loop\<close>

lemma search_loop_returns:
  assumes "search_loop ops k D tol target T0 = Some r"
  shows "\<exists>T\<ge>T0.
           (\<forall>T'. T0 \<le> T' \<and> T' < T \<longrightarrow> search_step ops k D tol target T' = Continue (T' + 1)) \<and>
           (case search_step ops k D tol target T of
              Continue n \<Rightarrow> False
            | Return d \<Rightarrow> r = Inr d
            | Raise e \<Rightarrow> r = Inl e)"
proof (rule search_loop.raw_induct [where P = "\<lambda>ops k D tol target T0 r. \<exists>T\<ge>T0.
           (\<forall>T'. T0 \<le> T' \<and> T' < T \<longrightarrow> search_step ops k D tol target T' = Continue (T' + 1)) \<and>
           (case search_step ops k D tol target T of
              Continue n \<Rightarrow> False
            | Return d \<Rightarrow> r = Inr d
            | Raise e \<Rightarrow> r = Inl e)", OF _ assms])
  fix f and ops :: "'a float_ops" and k D tol target T0 r
  assume IH: "\<And>ops k D tol target T0 r. f ops k D tol target T0 = Some r \<Longrightarrow>
      \<exists>T\<ge>T0.
           (\<forall>T'. T0 \<le> T' \<and> T' < T \<longrightarrow> search_step ops k D tol target T' = Continue (T' + 1)) \<and>
           (case search_step ops k D tol target T of
              Continue n \<Rightarrow> False
            | Return d \<Rightarrow> r = Inr d
            | Raise e \<Rightarrow> r = Inl e)"
    and eq: "(case search_step ops k D tol target T0 of
        Continue n \<Rightarrow> f ops k D tol target n
      | Return result \<Rightarrow> Some (Inr result)
      | Raise e \<Rightarrow> Some (Inl e)) = Some r"
  show "\<exists>T\<ge>T0.
           (\<forall>T'. T0 \<le> T' \<and> T' < T \<longrightarrow> search_step ops k D tol target T' = Continue (T' + 1)) \<and>
           (case search_step ops k D tol target T of
              Continue n \<Rightarrow> False
            | Return d \<Rightarrow> r = Inr d
            | Raise e \<Rightarrow> r = Inl e)"
  proof (cases "search_step ops k D tol target T0")
    case (Continue n)
    from search_step_Continue [OF Continue] have n: "n = T0 + 1" by simp
    from eq Continue n have "f ops k D tol target (T0 + 1) = Some r" by simp
    from IH [OF this] obtain T where T: "T0 + 1 \<le> T"
      and before: "\<forall>T'. T0 + 1 \<le> T' \<and> T' < T \<longrightarrow>
          search_step ops k D tol target T' = Continue (T' + 1)"
      and at: "(case search_step ops k D tol target T of
              Continue n \<Rightarrow> False
            | Return d \<Rightarrow> r = Inr d
            | Raise e \<Rightarrow> r = Inl e)"
      by blast
    have "search_step ops k D tol target T' = Continue (T' + 1)" if "T0 \<le> T' \<and> T' < T" for T'
    proof (cases "T' = T0")
      case True
      with Continue n show ?thesis by simp
    next
      case False
      with that have "T0 + 1 \<le> T' \<and> T' < T" by simp
      with before show ?thesis by blast
    qed
    with T at show ?thesis by (intro exI [of _ T]) auto
  next
    case (Return d)
    with eq show ?thesis by (intro exI [of _ T0]) auto
  next
    case (Raise e)
    with eq show ?thesis by (intro exI [of _ T0]) auto
  qed
qed

subsection \<open>Coefficients of the generator under the binary64 fact\<close>

lemma cf_loop_coefficients_positive:
  assumes H: "reciprocal_floor_positive ops"
  shows "cf_loop ops n r acc = Inr (cf, ex) \<Longrightarrow>
    (\<exists>x a. fl_floor ops x = Inr a \<and> \<not> fl_isclose0 ops (fl_sub_int ops x a) \<and>
       fl_recip ops (fl_sub_int ops x a) = Inr r) \<Longrightarrow>
    \<exists>new. cf = acc @ new \<and> list_all (\<lambda>a. 1 \<le> a) new"
proof (induction n arbitrary: r acc)
  case 0
  then show ?case by simp
next
  case (Suc n)
  from Suc.prems(1) obtain b where b: "fl_floor ops r = Inr b"
    by (auto split: sum.splits)
  from Suc.prems(2) b H have b1: "1 \<le> b"
    unfolding reciprocal_floor_positive_def by blast
  show ?case
  proof (cases "fl_isclose0 ops (fl_sub_int ops r b)")
    case True
    with Suc.prems(1) b have "cf = acc @ [b]" by (simp add: Let_def)
    with b1 show ?thesis by simp
  next
    case False
    with Suc.prems(1) b obtain r' where r': "fl_recip ops (fl_sub_int ops r b) = Inr r'"
      and rec: "cf_loop ops n r' (acc @ [b]) = Inr (cf, ex)"
      by (auto simp: Let_def split: sum.splits)
    from b False r' have "\<exists>x a. fl_floor ops x = Inr a \<and>
        \<not> fl_isclose0 ops (fl_sub_int ops x a) \<and> fl_recip ops (fl_sub_int ops x a) = Inr r'"
      by blast
    from Suc.IH [OF rec this] obtain new where "cf = (acc @ [b]) @ new"
      and "list_all (\<lambda>a. 1 \<le> a) new" by blast
    with b1 have "cf = acc @ (b # new) \<and> list_all (\<lambda>a. 1 \<le> a) (b # new)" by simp
    then show ?thesis by blast
  qed
qed

lemma get_continued_fraction_normal_form:
  assumes H: "reciprocal_floor_positive ops"
    and run: "get_continued_fraction ops x max_terms = Inr cf"
  shows "normal_form cf"
proof -
  from run get_continued_fraction_cases [of ops max_terms x]
  obtain ex where loop: "cf_loop ops (nat max_terms) x [] = Inr (cf, ex)" by auto
  show ?thesis
  proof (cases "nat max_terms")
    case 0
    with loop show ?thesis by (simp add: normal_form_def)
  next
    case (Suc n)
    with loop obtain a where a: "fl_floor ops x = Inr a"
      by (auto split: sum.splits)
    show ?thesis
    proof (cases "fl_isclose0 ops (fl_sub_int ops x a)")
      case True
      with loop Suc a have "cf = [a]" by (simp add: Let_def)
      then show ?thesis by (simp add: normal_form_def)
    next
      case False
      with loop Suc a obtain r where r: "fl_recip ops (fl_sub_int ops x a) = Inr r"
        and rec: "cf_loop ops n r [a] = Inr (cf, ex)"
        by (auto simp: Let_def split: sum.splits)
      from a False r have "\<exists>x a. fl_floor ops x = Inr a \<and>
          \<not> fl_isclose0 ops (fl_sub_int ops x a) \<and> fl_recip ops (fl_sub_int ops x a) = Inr r"
        by blast
      from cf_loop_coefficients_positive [OF H rec this]
      show ?thesis by (auto simp: normal_form_def)
    qed
  qed
qed

lemma search_step_no_retry:
  assumes H: "reciprocal_floor_positive ops"
    and step: "search_step ops k D tol target T = Continue n"
  shows "n = T + 1 \<and> T + 1 \<le> 50"
proof -
  from step obtain cf where cf: "get_continued_fraction ops target T = Inr cf"
    by (auto simp: search_step_def split: sum.splits)
  from step cf have ne: "get_convergents cf \<noteq> []"
    by (auto simp: search_step_def Let_def split: if_splits)
  obtain p q where pq: "last (get_convergents cf) = (p, q)"
    by (cases "last (get_convergents cf)")
  from get_continued_fraction_normal_form [OF H cf]
  have "\<forall>(p, q) \<in> set (get_convergents cf). 1 \<le> q"
    by (rule get_convergents_denominators_positive)
  moreover from ne pq have "(p, q) \<in> set (get_convergents cf)"
    using last_in_set [of "get_convergents cf"] by simp
  ultimately have q: "q \<noteq> 0" by auto
  from step cf ne pq q show ?thesis
    by (auto simp: search_step_def Let_def split: sum.splits if_splits)
qed

lemma search_loop_terminates:
  assumes H: "reciprocal_floor_positive ops"
  shows "nat (50 - T) \<le> n \<Longrightarrow> \<exists>r. search_loop ops k D tol target T = Some r"
proof (induction n arbitrary: T)
  case 0
  show ?case
  proof (cases "search_step ops k D tol target T")
    case (Continue m)
    from search_step_no_retry [OF H Continue] 0 show ?thesis by simp
  next
    case (Return d)
    then show ?thesis by (simp add: search_loop.simps [of ops k D tol target T])
  next
    case (Raise e)
    then show ?thesis by (simp add: search_loop.simps [of ops k D tol target T])
  qed
next
  case (Suc n)
  show ?case
  proof (cases "search_step ops k D tol target T")
    case (Continue m)
    from search_step_no_retry [OF H Continue] have m: "m = T + 1" and "T + 1 \<le> 50"
      by simp_all
    with Suc.prems have "nat (50 - (T + 1)) \<le> n" by simp
    from Suc.IH [OF this] obtain r where "search_loop ops k D tol target (T + 1) = Some r"
      by blast
    with Continue m show ?thesis by (simp add: search_loop.simps [of ops k D tol target T])
  next
    case (Return d)
    then show ?thesis by (simp add: search_loop.simps [of ops k D tol target T])
  next
    case (Raise e)
    then show ?thesis by (simp add: search_loop.simps [of ops k D tol target T])
  qed
qed

lemma search_loop_outcome:
  assumes H: "reciprocal_floor_positive ops"
    and run: "search_loop ops k D tol target 2 = Some r"
  shows "case r of
           Inl e \<Rightarrow> (\<exists>y. fl_floor ops y = Inl e) \<or> (\<exists>y. fl_recip ops y = Inl e) \<or>
                    (\<exists>p q. fl_true_div ops p q = Inl e) \<or> (\<exists>y. fl_kth_root ops y k = Inl e)
         | Inr d \<Rightarrow> (\<exists>p q a. d = found_dict k D p q a (fl_abs_diff_pi ops a)) \<or>
                    (d = not_found_dict \<and>
                     (\<forall>T. 2 \<le> T \<and> T \<le> 50 \<longrightarrow> \<not> accuracy_met ops k tol target T))"
proof -
  from search_loop_returns [OF run] obtain T where T: "2 \<le> T"
    and before: "\<forall>T'. 2 \<le> T' \<and> T' < T \<longrightarrow>
        search_step ops k D tol target T' = Continue (T' + 1)"
    and at: "(case search_step ops k D tol target T of
              Continue n \<Rightarrow> False
            | Return d \<Rightarrow> r = Inr d
            | Raise e \<Rightarrow> r = Inl e)"
    by blast
  have T50: "T \<le> 50"
  proof (rule ccontr)
    assume "\<not> T \<le> 50"
    with T have "2 \<le> T - 1 \<and> T - 1 < T" by simp
    with before have "search_step ops k D tol target (T - 1) = Continue (T - 1 + 1)" by blast
    from search_step_no_retry [OF H this] \<open>\<not> T \<le> 50\<close> show False by simp
  qed
  show ?thesis
  proof (cases "search_step ops k D tol target T")
    case (Continue n)
    with at show ?thesis by simp
  next
    case (Raise e)
    with at have r: "r = Inl e" by simp
    from T have "1 \<le> T" by simp
    from search_step_Raise [OF Raise this] r show ?thesis by simp
  next
    case (Return d)
    with at have r: "r = Inr d" by simp
    from search_step_Return [OF Return]
    show ?thesis
    proof
      assume "\<exists>cf p q a. get_continued_fraction ops target T = Inr cf \<and>
            get_convergents cf \<noteq> [] \<and> last (get_convergents cf) = (p, q) \<and> q \<noteq> 0 \<and>
            root_approximation ops k p q = Some a \<and>
            fl_less ops (fl_abs_diff_pi ops a) tol \<and>
            d = found_dict k D p q a (fl_abs_diff_pi ops a)"
      with r show ?thesis by auto
    next
      assume nf: "d = not_found_dict \<and> 50 < T + 1 \<and> \<not> accuracy_met ops k tol target T"
      with T50 have T_eq: "T = 50" by simp
      have "\<not> accuracy_met ops k tol target T'" if "2 \<le> T' \<and> T' \<le> 50" for T'
      proof (cases "T' = T")
        case True
        with nf show ?thesis by simp
      next
        case False
        with that T_eq have "2 \<le> T' \<and> T' < T" by simp
        with before have "search_step ops k D tol target T' = Continue (T' + 1)" by blast
        from search_step_Continue [OF this] show ?thesis by simp
      qed
      with nf r show ?thesis by simp
    qed
  qed
qed

subsection \<open>Evaluations in the reference interpretation\<close>

lemma ref_reciprocal_floor_positive: "reciprocal_floor_positive ref_ops"
  unfolding reciprocal_floor_positive_def
proof (intro allI impI)
  fix x a r b
  assume fl: "fl_floor ref_ops x = Inr a"
    and nz: "\<not> fl_isclose0 ref_ops (fl_sub_int ref_ops x a)"
    and rc: "fl_recip ref_ops (fl_sub_int ref_ops x a) = Inr r"
    and fb: "fl_floor ref_ops r = Inr b"
  from fl obtain v where x: "x = Finite v" and a: "a = \<lfloor>v\<rfloor>"
    by (cases x) (auto simp: ref_ops_def)
  have frac: "0 \<le> v - of_int a" "v - of_int a < 1"
    unfolding a by linarith+
  then have sub: "fl_sub_int ref_ops x a = Finite (v - of_int a)"
    by (simp add: ref_ops_def x in_range_small)
  with nz have pos: "0 < v - of_int a"
    using frac by (simp add: ref_ops_def)
  with frac have big: "1 < 1 / (v - of_int a)" by simp
  from rc sub pos have r: "r = in_range (1 / (v - of_int a))"
    by (simp add: ref_ops_def)
  from fb r big have "r = Finite (1 / (v - of_int a))"
    by (auto simp: in_range_def ref_ops_def split: if_splits)
  with fb have "b = \<lfloor>1 / (v - of_int a)\<rfloor>" by (simp add: ref_ops_def)
  with big show "1 \<le> b" by linarith
qed

lemma ref_pi_pow_1: "fl_pi_pow ref_ops 1 = Inr (Finite math_pi)"
  by (simp add: ref_ops_def ref_pi_pow_def math_pi_def overflow_bound_def)

lemma ref_tolerance_1: "fl_tolerance ref_ops 1 = Inr (Finite (1 / 10))"
  using overflow_bound_gt_1 by (simp add: ref_ops_def ref_tolerance_def power_int_minus)

lemma ref_cf_pi_2: "get_continued_fraction ref_ops (Finite math_pi) 2 = Inr [3, 7]"
  by (simp add: get_continued_fraction_def ref_ops_def in_range_16 math_pi_def numeral_2_eq_2)

lemma ref_root_22_7: "root_approximation ref_ops 1 22 7 = Some (Finite (22 / 7))"
  by (simp add: root_approximation_def ref_ops_def ref_true_div_def overflow_bound_def)

lemma ref_step_2:
  "search_step ref_ops 1 1 (Finite (1 / 10)) (Finite math_pi) 2 =
     Return (found_dict 1 1 22 7 (Finite (22 / 7)) (Finite (22 / 7 - math_pi)))"
  by (simp add: search_step_def ref_cf_pi_2 get_convergents_def)
     (simp add: ref_ops_def ref_true_div_def overflow_bound_def math_pi_def)

lemma ref_search_1_1:
  "find_pi_approximation_to_d_digits ref_ops 1 1 =
     Some (Inr (found_dict 1 1 22 7 (Finite (22 / 7)) (Finite (22 / 7 - math_pi))))"
  by (simp add: find_pi_approximation_to_d_digits_def ref_pi_pow_1 ref_tolerance_1
      search_loop.simps [of ref_ops 1 1 "Finite (1 / 10)" "Finite math_pi" 2] ref_step_2)

lemma ref_tolerance_3: "fl_tolerance ref_ops 3 = Inr (Finite (1 / 1000))"
  using overflow_bound_gt_16 by (simp add: ref_ops_def ref_tolerance_def power_int_minus)

lemma ref_cf_pi_3: "get_continued_fraction ref_ops (Finite math_pi) 3 = Inr [3, 7, 15]"
  by (simp add: get_continued_fraction_def ref_ops_def in_range_16 math_pi_def numeral_3_eq_3)

lemma ref_step_1_3_at_2:
  "search_step ref_ops 1 3 (Finite (1 / 1000)) (Finite math_pi) 2 = Continue 3"
  by (simp add: search_step_def ref_cf_pi_2 get_convergents_def)
     (simp add: ref_ops_def ref_true_div_def overflow_bound_def math_pi_def)

lemma ref_step_1_3_at_3:
  "search_step ref_ops 1 3 (Finite (1 / 1000)) (Finite math_pi) 3 =
     Return (found_dict 1 3 333 106 (Finite (333 / 106)) (Finite (math_pi - 333 / 106)))"
  by (simp add: search_step_def ref_cf_pi_3 get_convergents_def)
     (simp add: ref_ops_def ref_true_div_def overflow_bound_def math_pi_def)

lemma ref_search_1_3:
  "find_pi_approximation_to_d_digits ref_ops 1 3 =
     Some (Inr (found_dict 1 3 333 106 (Finite (333 / 106)) (Finite (math_pi - 333 / 106))))"
  by (simp add: find_pi_approximation_to_d_digits_def ref_pi_pow_1 ref_tolerance_3
      search_loop.simps [of ref_ops 1 3 "Finite (1 / 1000)" "Finite math_pi" 2]
      search_loop.simps [of ref_ops 1 3 "Finite (1 / 1000)" "Finite math_pi" 3]
      ref_step_1_3_at_2 ref_step_1_3_at_3)

lemma ref_not_met_2: "\<not> accuracy_met ref_ops 1 (Finite (1 / 1000)) (Finite math_pi) 2"
  using search_step_Continue [OF ref_step_1_3_at_2] by simp

lemma ref_met_3: "accuracy_met ref_ops 1 (Finite (1 / 1000)) (Finite math_pi) 3"
  by (simp add: accuracy_met_def last_convergent_def ref_cf_pi_3 get_convergents_def
      root_approximation_def)
     (simp add: ref_ops_def ref_true_div_def overflow_bound_def math_pi_def)

lemma math_pi_pow_700: "overflow_bound \<le> math_pi ^ 700"
proof -
  have "overflow_bound \<le> (3::real) ^ 700" by (simp add: overflow_bound_def)
  also have "(3::real) ^ 700 \<le> math_pi ^ 700"
    by (rule power_mono) (simp_all add: math_pi_def)
  finally show ?thesis .
qed

text \<open>
  Claim C6 says that the search never crashes for any \<open>k \<ge> 1\<close> and \<open>D \<ge> 1\<close>. For
  \<open>k = 700\<close> the power \<^verbatim>\<open>math.pi ** k\<close> is out of the binary64 range and raises
  OverflowError before the loop is entered.
\<close>

theorem search_overflow_counterexample:
  "find_pi_approximation_to_d_digits ref_ops 700 1 = Some (Inl OverflowError)"
  using math_pi_pow_700 ref_tolerance_1
  by (simp add: find_pi_approximation_to_d_digits_def ref_ops_def ref_pi_pow_def)

subsection \<open>Properties of the search controller\<close>

text \<open>
  Claim C2. Whenever the search returns a success result, the returned \<open>(p, q)\<close> is the
  last convergent of the coefficient sequence of \<open>pi\<^sup>k\<close> at the first term bound
  \<open>T \<ge> 2\<close> whose last convergent passes the test \<open>|(p/q)\<^sup>1\<^sup>/\<^sup>k - pi| < 10\<^sup>-\<^sup>D\<close>: at
  every bound from 2 up to \<open>T\<close> the run has a last convergent that has \<open>q = 0\<close> or
  fails the test. The fields of the returned dictionary are \<open>k\<close>, \<open>D\<close>, \<open>p\<close>, \<open>q\<close>,
  the approximation \<open>(p/q)\<^sup>1\<^sup>/\<^sup>k\<close> and that absolute difference, and the test looks at
  the last convergent of a run only.
\<close>

theorem search_found_first_accurate:
  assumes "find_pi_approximation_to_d_digits ops k D = Some (Inr d)"
    and "''convergent_p'' \<in> dom d"
  shows "\<exists>tol target T cf p q ratio a.
           fl_tolerance ops D = Inr tol \<and> fl_pi_pow ops k = Inr target \<and> 2 \<le> T \<and>
           get_continued_fraction ops target T = Inr cf \<and>
           get_convergents cf \<noteq> [] \<and> last (get_convergents cf) = (p, q) \<and> q \<noteq> 0 \<and>
           fl_true_div ops p q = Inr ratio \<and> fl_kth_root ops ratio k = Inr a \<and>
           fl_less ops (fl_abs_diff_pi ops a) tol \<and>
           accuracy_met ops k tol target T \<and>
           (\<forall>T'. 2 \<le> T' \<and> T' < T \<longrightarrow>
              \<not> accuracy_met ops k tol target T' \<and>
              (\<exists>cf' p' q'. get_continued_fraction ops target T' = Inr cf' \<and>
                 get_convergents cf' \<noteq> [] \<and> last (get_convergents cf') = (p', q') \<and>
                 (q' = 0 \<or>
                  (\<exists>ratio' a'. fl_true_div ops p' q' = Inr ratio' \<and>
                     fl_kth_root ops ratio' k = Inr a' \<and>
                     \<not> fl_less ops (fl_abs_diff_pi ops a') tol)))) \<and>
           d ''power_k'' = Some (PyInt k) \<and>
           d ''digits_D'' = Some (PyInt D) \<and>
           d ''convergent_p'' = Some (PyInt p) \<and>
           d ''convergent_q'' = Some (PyInt q) \<and>
           d ''pi_approximation'' = Some (PyFloat a) \<and>
           d ''error'' = Some (PyFloat (fl_abs_diff_pi ops a)) \<and>
           dom d = {''power_k'', ''digits_D'', ''convergent_p'', ''convergent_q'',
                    ''pi_approximation'', ''error''}"
proof -
  from assms(1) obtain tol where tol: "fl_tolerance ops D = Inr tol"
    by (auto simp: find_pi_approximation_to_d_digits_def split: sum.splits)
  from assms(1) tol obtain target where target: "fl_pi_pow ops k = Inr target"
    by (auto simp: find_pi_approximation_to_d_digits_def split: sum.splits)
  from assms(1) tol target have run: "search_loop ops k D tol target 2 = Some (Inr d)"
    by (simp add: find_pi_approximation_to_d_digits_def)
  from search_loop_returns [OF run] obtain T where T: "2 \<le> T"
    and before: "\<forall>T'. 2 \<le> T' \<and> T' < T \<longrightarrow>
        search_step ops k D tol target T' = Continue (T' + 1)"
    and at: "(case search_step ops k D tol target T of
              Continue n \<Rightarrow> False
            | Return d' \<Rightarrow> Inr d = (Inr d' :: pyerror + 'a pydict)
            | Raise e \<Rightarrow> Inr d = (Inl e :: pyerror + 'a pydict))"
    by blast
  from at have step: "search_step ops k D tol target T = Return d"
    by (cases "search_step ops k D tol target T") simp_all
  from assms(2) have "d \<noteq> not_found_dict"
    by (auto simp: not_found_dict_lookup)
  with search_step_Return [OF step]
  obtain cf p q a where cf: "get_continued_fraction ops target T = Inr cf"
    and ne: "get_convergents cf \<noteq> []"
    and pq: "last (get_convergents cf) = (p, q)"
    and q: "q \<noteq> 0"
    and root: "root_approximation ops k p q = Some a"
    and less: "fl_less ops (fl_abs_diff_pi ops a) tol"
    and d: "d = found_dict k D p q a (fl_abs_diff_pi ops a)"
    by blast
  from root_approximation_Some [OF root] obtain ratio
    where ratio: "fl_true_div ops p q = Inr ratio" "fl_kth_root ops ratio k = Inr a"
    by blast
  from cf ne pq q root less have met: "accuracy_met ops k tol target T"
    by (simp add: accuracy_met_def last_convergent_def)
  have earlier: "\<not> accuracy_met ops k tol target T' \<and>
      (\<exists>cf' p' q'. get_continued_fraction ops target T' = Inr cf' \<and>
         get_convergents cf' \<noteq> [] \<and> last (get_convergents cf') = (p', q') \<and>
         (q' = 0 \<or>
          (\<exists>ratio' a'. fl_true_div ops p' q' = Inr ratio' \<and>
             fl_kth_root ops ratio' k = Inr a' \<and>
             \<not> fl_less ops (fl_abs_diff_pi ops a') tol)))"
    if "2 \<le> T' \<and> T' < T" for T'
  proof -
    from before that have c: "search_step ops k D tol target T' = Continue (T' + 1)"
      by blast
    from search_step_Continue [OF c] search_step_Continue_run [OF c] show ?thesis
      by simp
  qed
  have fields: "d ''power_k'' = Some (PyInt k)" "d ''digits_D'' = Some (PyInt D)"
    "d ''convergent_p'' = Some (PyInt p)" "d ''convergent_q'' = Some (PyInt q)"
    "d ''pi_approximation'' = Some (PyFloat a)"
    "d ''error'' = Some (PyFloat (fl_abs_diff_pi ops a))"
    by (simp_all add: d found_dict_lookup)
  have keys: "dom d = {''power_k'', ''digits_D'', ''convergent_p'', ''convergent_q'',
      ''pi_approximation'', ''error''}"
    by (simp add: d dom_found_dict)
  show ?thesis
  proof (intro exI conjI)
    show "fl_tolerance ops D = Inr tol" by (fact tol)
    show "fl_pi_pow ops k = Inr target" by (fact target)
    show "2 \<le> T" by (fact T)
    show "get_continued_fraction ops target T = Inr cf" by (fact cf)
    show "get_convergents cf \<noteq> []" by (fact ne)
    show "last (get_convergents cf) = (p, q)" by (fact pq)
    show "q \<noteq> 0" by (fact q)
    show "fl_true_div ops p q = Inr ratio" by (fact ratio(1))
    show "fl_kth_root ops ratio k = Inr a" by (fact ratio(2))
    show "fl_less ops (fl_abs_diff_pi ops a) tol" by (fact less)
    show "accuracy_met ops k tol target T" by (fact met)
    show "\<forall>T'. 2 \<le> T' \<and> T' < T \<longrightarrow>
        \<not> accuracy_met ops k tol target T' \<and>
        (\<exists>cf' p' q'. get_continued_fraction ops target T' = Inr cf' \<and>
           get_convergents cf' \<noteq> [] \<and> last (get_convergents cf') = (p', q') \<and>
           (q' = 0 \<or>
            (\<exists>ratio' a'. fl_true_div ops p' q' = Inr ratio' \<and>
               fl_kth_root ops ratio' k = Inr a' \<and>
               \<not> fl_less ops (fl_abs_diff_pi ops a') tol)))"
      using earlier by (intro allI impI)
    show "d ''power_k'' = Some (PyInt k)" by (fact fields(1))
    show "d ''digits_D'' = Some (PyInt D)" by (fact fields(2))
    show "d ''convergent_p'' = Some (PyInt p)" by (fact fields(3))
    show "d ''convergent_q'' = Some (PyInt q)" by (fact fields(4))
    show "d ''pi_approximation'' = Some (PyFloat a)" by (fact fields(5))
    show "d ''error'' = Some (PyFloat (fl_abs_diff_pi ops a))" by (fact fields(6))
    show "dom d = {''power_k'', ''digits_D'', ''convergent_p'', ''convergent_q'',
        ''pi_approximation'', ''error''}" by (fact keys)
  qed
qed

text \<open>
  For \<open>k = 1\<close> and \<open>D = 3\<close> the bound 2 gives \<open>22/7\<close>, which fails the test, and the
  bound 3 gives \<open>333/106\<close>, which passes it and is returned.
\<close>

theorem search_found_first_accurate_witness:
  "find_pi_approximation_to_d_digits ref_ops 1 3 =
     Some (Inr (found_dict 1 3 333 106 (Finite (333 / 106)) (Finite (math_pi - 333 / 106)))) \<and>
   ''convergent_p'' \<in>
     dom (found_dict 1 3 333 106 (Finite (333 / 106)) (Finite (math_pi - 333 / 106))) \<and>
   fl_tolerance ref_ops 3 = Inr (Finite (1 / 1000)) \<and>
   fl_pi_pow ref_ops 1 = Inr (Finite math_pi) \<and>
   \<not> accuracy_met ref_ops 1 (Finite (1 / 1000)) (Finite math_pi) 2 \<and>
   accuracy_met ref_ops 1 (Finite (1 / 1000)) (Finite math_pi) 3 \<and>
   (\<exists>T. T = 3 \<and>
      get_continued_fraction ref_ops (Finite math_pi) T = Inr [3, 7, 15] \<and>
      last (get_convergents [3, 7, 15]) = (333, 106) \<and>
      (\<exists>d. find_pi_approximation_to_d_digits ref_ops 1 3 = Some (Inr d) \<and>
         d ''convergent_p'' = Some (PyInt 333) \<and> d ''convergent_q'' = Some (PyInt 106)))"
proof -
  let ?d = "found_dict 1 3 333 106 (Finite (333 / 106)) (Finite (math_pi - 333 / 106))
    :: pyfloat pydict"
  let ?tol = "Finite (1 / 1000)"
  let ?target = "Finite math_pi"
  have key: "''convergent_p'' \<in> dom ?d" by (simp add: dom_found_dict)
  from search_found_first_accurate [OF ref_search_1_3 key]
  obtain tol target T cf p q where
    tol: "fl_tolerance ref_ops 3 = Inr tol" and target: "fl_pi_pow ref_ops 1 = Inr target"
    and T: "2 \<le> T"
    and cf: "get_continued_fraction ref_ops target T = Inr cf"
    and pq: "last (get_convergents cf) = (p, q)"
    and met: "accuracy_met ref_ops 1 tol target T"
    and first: "\<forall>T'. 2 \<le> T' \<and> T' < T \<longrightarrow>
        \<not> accuracy_met ref_ops 1 tol target T' \<and>
        (\<exists>cf' p' q'. get_continued_fraction ref_ops target T' = Inr cf' \<and>
           get_convergents cf' \<noteq> [] \<and> last (get_convergents cf') = (p', q') \<and>
           (q' = 0 \<or>
            (\<exists>ratio' a'. fl_true_div ref_ops p' q' = Inr ratio' \<and>
               fl_kth_root ref_ops ratio' 1 = Inr a' \<and>
               \<not> fl_less ref_ops (fl_abs_diff_pi ref_ops a') tol)))"
    and p: "?d ''convergent_p'' = Some (PyInt p)"
    and q: "?d ''convergent_q'' = Some (PyInt q)"
    by (elim exE conjE)
  from tol target have tt: "tol = ?tol" "target = ?target"
    by (simp_all add: ref_tolerance_3 ref_pi_pow_1)
  from met tt ref_not_met_2 have "T \<noteq> 2" by auto
  moreover from first tt ref_met_3 have "\<not> 3 < T" by auto
  ultimately have T3: "T = 3" using T by simp
  with cf tt have cf3: "cf = [3, 7, 15]" by (simp add: ref_cf_pi_3)
  with pq have "last (get_convergents [3, 7, 15]) = (p, q)" by simp
  moreover have "last (get_convergents [3, 7, 15]) = (333, 106)"
    by (simp add: get_convergents_def)
  ultimately have "p = 333" "q = 106" by simp_all
  with p q have "?d ''convergent_p'' = Some (PyInt 333) \<and> ?d ''convergent_q'' = Some (PyInt 106)"
    by simp
  with ref_search_1_3 have "\<exists>d. find_pi_approximation_to_d_digits ref_ops 1 3 = Some (Inr d) \<and>
      d ''convergent_p'' = Some (PyInt 333) \<and> d ''convergent_q'' = Some (PyInt 106)"
    by blast
  moreover have "last (get_convergents [3, 7, 15]) = (333, 106)"
    by (simp add: get_convergents_def)
  ultimately show ?thesis
    using ref_search_1_3 key ref_tolerance_3 ref_pi_pow_1 ref_not_met_2 ref_met_3 ref_cf_pi_3
    by simp
qed

text \<open>
  Claim C10. Every dictionary that the search returns has the key \<open>error\<close>: in a success
  result it maps to the float \<open>|approximation - pi|\<close> beside the convergent fields, in
  a failure result it maps to the message string and is the only key. So the key
  \<open>error\<close> does not tell the two apart; the key \<open>convergent_p\<close> does.
\<close>

theorem search_result_error_key:
  assumes "find_pi_approximation_to_d_digits ops k D = Some (Inr d)"
  shows "''error'' \<in> dom d \<and>
         ((\<exists>p q a. d = found_dict k D p q a (fl_abs_diff_pi ops a) \<and>
             d ''error'' = Some (PyFloat (fl_abs_diff_pi ops a)) \<and>
             d ''convergent_p'' = Some (PyInt p) \<and> d ''convergent_q'' = Some (PyInt q) \<and>
             ''convergent_p'' \<in> dom d) \<or>
          (d = not_found_dict \<and>
             d ''error'' = Some (PyStr ''Could not find a suitable approximation.'') \<and>
             dom d = {''error''} \<and> ''convergent_p'' \<notin> dom d))"
proof -
  from assms obtain tol where tol: "fl_tolerance ops D = Inr tol"
    by (auto simp: find_pi_approximation_to_d_digits_def split: sum.splits)
  from assms tol obtain target where target: "fl_pi_pow ops k = Inr target"
    by (auto simp: find_pi_approximation_to_d_digits_def split: sum.splits)
  from assms tol target have run: "search_loop ops k D tol target 2 = Some (Inr d)"
    by (simp add: find_pi_approximation_to_d_digits_def)
  from search_loop_returns [OF run] obtain T where
    at: "(case search_step ops k D tol target T of
              Continue n \<Rightarrow> False
            | Return d' \<Rightarrow> Inr d = (Inr d' :: pyerror + 'a pydict)
            | Raise e \<Rightarrow> Inr d = (Inl e :: pyerror + 'a pydict))"
    by blast
  then have step: "search_step ops k D tol target T = Return d"
    by (cases "search_step ops k D tol target T") simp_all
  from search_step_Return [OF step]
  consider p q a where "d = found_dict k D p q a (fl_abs_diff_pi ops a)"
    | "d = not_found_dict"
    by blast
  then show ?thesis
  proof cases
    case 1
    then have "d ''error'' = Some (PyFloat (fl_abs_diff_pi ops a)) \<and>
        d ''convergent_p'' = Some (PyInt p) \<and> d ''convergent_q'' = Some (PyInt q) \<and>
        ''convergent_p'' \<in> dom d \<and> ''error'' \<in> dom d"
      by (simp add: found_dict_lookup dom_found_dict)
    with 1 show ?thesis by blast
  next
    case 2
    then have "d ''error'' = Some (PyStr ''Could not find a suitable approximation.'') \<and>
        dom d = {''error''} \<and> ''convergent_p'' \<notin> dom d \<and> ''error'' \<in> dom d"
      by (simp add: not_found_dict_lookup dom_not_found_dict)
    with 2 show ?thesis by blast
  qed
qed

theorem search_result_error_key_witness:
  "find_pi_approximation_to_d_digits ref_ops 1 1 =
     Some (Inr (found_dict 1 1 22 7 (Finite (22 / 7)) (Finite (22 / 7 - math_pi)))) \<and>
   ''error'' \<in> dom (found_dict 1 1 22 7 (Finite (22 / 7)) (Finite (22 / 7 - math_pi))) \<and>
   found_dict 1 1 22 7 (Finite (22 / 7)) (Finite (22 / 7 - math_pi)) ''error''
     = Some (PyFloat (Finite (22 / 7 - math_pi))) \<and>
   ''error'' \<in> dom (not_found_dict :: pyfloat pydict)"
  using search_result_error_key [OF ref_search_1_1]
  by (simp add: ref_search_1_1 found_dict_lookup dom_not_found_dict)

text \<open>
  Claim C6, amended. On binary64 arithmetic (\<open>reciprocal_floor_positive\<close>) the search
  terminates for every \<open>k\<close> and \<open>D\<close>: it returns a success result, or the failure
  result once the accuracy test has failed at every term bound from 2 to 50, or it
  propagates an exception raised by one of its floating-point primitives; it never
  hangs.
\<close>

theorem search_terminates:
  assumes "reciprocal_floor_positive ops"
  shows "\<exists>r. find_pi_approximation_to_d_digits ops k D = Some r \<and>
           (case r of
              Inl e \<Rightarrow> primitive_raises ops k D e
            | Inr d \<Rightarrow>
                (\<exists>p q a. d = found_dict k D p q a (fl_abs_diff_pi ops a)) \<or>
                (d = not_found_dict \<and>
                 (\<exists>tol target. fl_tolerance ops D = Inr tol \<and> fl_pi_pow ops k = Inr target \<and>
                    (\<forall>T. 2 \<le> T \<and> T \<le> 50 \<longrightarrow> \<not> accuracy_met ops k tol target T))))"
proof (cases "fl_tolerance ops D")
  case (Inl e)
  then show ?thesis
    by (simp add: find_pi_approximation_to_d_digits_def primitive_raises_def)
next
  case tol: (Inr tol)
  show ?thesis
  proof (cases "fl_pi_pow ops k")
    case (Inl e)
    with tol show ?thesis
      by (simp add: find_pi_approximation_to_d_digits_def primitive_raises_def)
  next
    case target: (Inr target)
    from search_loop_terminates [OF assms, of 2 "nat (50 - 2)" k D tol target]
    obtain r where run: "search_loop ops k D tol target 2 = Some r" by auto
    from search_loop_outcome [OF assms run] tol target run show ?thesis
      by (cases r) (auto simp: find_pi_approximation_to_d_digits_def primitive_raises_def)
  qed
qed

theorem search_terminates_witness:
  "reciprocal_floor_positive ref_ops \<and>
   find_pi_approximation_to_d_digits ref_ops 1 1 =
     Some (Inr (found_dict 1 1 22 7 (Finite (22 / 7)) (Finite (22 / 7 - math_pi)))) \<and>
   (\<exists>r. find_pi_approximation_to_d_digits ref_ops 700 1 = Some r)"
  using search_terminates [OF ref_reciprocal_floor_positive, of 700 1]
    ref_reciprocal_floor_positive ref_search_1_1
  by auto

end
